theory Spec2Isabelle
  imports Complex_Main "HOL-Library.AList" "HOL-Library.List_Lexorder" "HOL-Library.Char_ord"
begin

section \<open>Errors\<close>

text \<open>
  The exceptions the modelled code (and the library calls it makes) can raise.
  \<open>DirectoryNotEmpty\<close> stands for the bare \<^verbatim>\<open>Exception("The directory is not empty.")\<close>
  of \<^verbatim>\<open>save_networks\<close>.
\<close>

datatype py_error =
    ValueError | IndexError | KeyError | TypeError | EmptyDataError | ParserError
  | FileNotFoundError | FileExistsError | NotADirectoryError | IsADirectoryError
  | DirectoryNotEmpty

section \<open>Numeric primitives (numpy, pandas), over exact reals\<close>

text \<open>
  A degree sequence is a list of node degrees, hence of naturals. Frequencies, sample
  points and bin boundaries are floating-point numbers in the source; here they are
  computed in exact real arithmetic. A computed sample point or boundary of the code can
  therefore differ from the one computed here in the last bits, and an integer degree
  that equals the exact value can fall on the other side of the rounded one. The general
  statements about sample points and boundaries below are for that reason stated up to
  rounding (\<open>rel_close\<close>), with the results given in terms of the points and boundaries
  that are returned or used, so that they hold of both computations.
\<close>

definition py_max :: "nat list \<Rightarrow> py_error + nat" where
  \<comment> \<open>\<^verbatim>\<open>max(degrees)\<close>: raises ValueError on an empty sequence.\<close>
  "py_max xs = (if xs = [] then Inl ValueError else Inr (Max (set xs)))"

definition py_min :: "nat list \<Rightarrow> py_error + nat" where
  \<comment> \<open>\<^verbatim>\<open>min(degrees)\<close>: raises ValueError on an empty sequence.\<close>
  "py_min xs = (if xs = [] then Inl ValueError else Inr (Min (set xs)))"

definition bincount :: "nat list \<Rightarrow> nat list" where
  \<comment> \<open>\<^verbatim>\<open>np.bincount\<close>: occurrences of each value \<open>0..max\<close>; empty on empty input.\<close>
  "bincount xs = (if xs = [] then [] else map (count_list xs) [0..<Suc (Max (set xs))])"

definition nonzero :: "real list \<Rightarrow> nat list" where
  \<comment> \<open>\<^verbatim>\<open>np.nonzero\<close>: the positions holding a non-zero entry, ascending.\<close>
  "nonzero a = filter (\<lambda>i. a ! i \<noteq> 0) [0..<length a]"

definition fancy_index :: "'a list \<Rightarrow> nat list \<Rightarrow> py_error + 'a list" where
  \<comment> \<open>\<^verbatim>\<open>a[idx]\<close> with an index array: IndexError when a position is out of bounds.\<close>
  "fancy_index a idx =
     (if list_all (\<lambda>i. i < length a) idx then Inr (map (nth a) idx) else Inl IndexError)"

definition arange :: "nat \<Rightarrow> nat list" where
  "arange n = [0..<n]"

definition linspace :: "real \<Rightarrow> real \<Rightarrow> int \<Rightarrow> bool \<Rightarrow> py_error + real list" where
  \<comment> \<open>\<^verbatim>\<open>np.linspace(start, stop, num, endpoint)\<close>: \<open>div\<close> is \<open>num - 1\<close> with the
      endpoint and \<open>num\<close> without; the samples are \<open>i * (delta / div) + start\<close>, or
      \<open>i * delta + start\<close> when \<open>div\<close> is not positive; with the endpoint and more than
      one sample the last one is overwritten by \<open>stop\<close>.\<close>
  "linspace start stop num endpoint =
     (if num < 0 then Inl ValueError
      else
        let n = nat num;
            dv = (if endpoint then n - 1 else n);
            delta = stop - start;
            y = map (\<lambda>i. if 0 < dv then real i * (delta / real dv) + start
                          else real i * delta + start) [0..<n]
        in Inr (if endpoint \<and> 1 < n then y[n - 1 := stop] else y))"

definition geomspace :: "nat \<Rightarrow> nat \<Rightarrow> int \<Rightarrow> bool \<Rightarrow> py_error + real list" where
  \<comment> \<open>\<^verbatim>\<open>np.geomspace(start, stop, num, endpoint)\<close> at the integer bounds the code
      passes: zero bounds are refused; the samples are \<open>10\<close> to the power of a linear
      sequence between the decimal logarithms of the bounds; the first sample is
      overwritten by \<open>start\<close> and, with the endpoint and more than one sample, the last
      one by \<open>stop\<close>.\<close>
  "geomspace start stop num endpoint =
     (if start = 0 \<or> stop = 0 then Inl ValueError
      else
        case linspace (log 10 (real start)) (log 10 (real stop)) num endpoint of
          Inl e \<Rightarrow> Inl e
        | Inr ls \<Rightarrow>
            let result = map (\<lambda>e. 10 powr e) ls;
                result = (if 0 < num then result[0 := real start] else result);
                result = (if 1 < num \<and> endpoint
                          then result[nat num - 1 := real stop] else result)
            in Inr result)"

definition digitize :: "real list \<Rightarrow> real list \<Rightarrow> py_error + nat list" where
  \<comment> \<open>\<^verbatim>\<open>np.digitize(x, bins)\<close> with \<open>right=False\<close>: for non-decreasing bins the
      index \<open>i\<close> with \<open>bins[i-1] <= x < bins[i]\<close>, that is the number of boundaries
      not above \<open>x\<close>; for non-increasing bins the mirrored search; ValueError when the
      bins are not monotonic.\<close>
  "digitize x bins =
     (if sorted bins then Inr (map (\<lambda>v. length (filter (\<lambda>b. b \<le> v) bins)) x)
      else if sorted (rev bins)
        then Inr (map (\<lambda>v. length bins - length (filter (\<lambda>b. b < v) bins)) x)
      else Inl ValueError)"

definition mean :: "real list \<Rightarrow> real" where
  "mean xs = sum_list xs / real (length xs)"

definition groupby_mean :: "nat list \<Rightarrow> real list \<Rightarrow> real list" where
  \<comment> \<open>\<^verbatim>\<open>df.groupby('bin').mean().col\<close>: one entry per distinct key, keys ascending,
      each the mean of the column over the rows carrying that key.\<close>
  "groupby_mean keys col =
     map (\<lambda>k. mean (map fst (filter (\<lambda>r. snd r = k) (zip col keys)))) (sort (remdups keys))"

section \<open>The four distribution transforms\<close>

definition degree_distribution :: "nat list \<Rightarrow> py_error + (nat list \<times> real list)" where
  "degree_distribution degrees =
     (let rho = map (\<lambda>c. real c / real (length degrees)) (bincount degrees) in
      case fancy_index (arange (length degrees)) (nonzero rho) of
        Inl e \<Rightarrow> Inl e
      | Inr k \<Rightarrow>
          (case fancy_index rho (nonzero rho) of
             Inl e \<Rightarrow> Inl e
           | Inr rho_k \<Rightarrow> Inr (k, rho_k)))"

definition log_binning :: "nat list \<Rightarrow> int \<Rightarrow> py_error + (real list \<times> real list)" where
  \<comment> \<open>The data frame has the columns \<open>degree\<close> and \<open>freq\<close>, then \<open>bin\<close>. When every
      degree is zero the frame is empty, its bounds are NaN, and no row is grouped.\<close>
  "log_binning degrees num =
     (case py_max degrees of
        Inl e \<Rightarrow> Inl e
      | Inr mx \<Rightarrow>
          (case py_min degrees of
             Inl e \<Rightarrow> Inl e
           | Inr mn \<Rightarrow>
               let degree = drop (max 1 mn) (arange (mx + 1));
                   freq = map (\<lambda>c. real c / real (length degrees))
                            (drop (max 1 mn) (bincount degrees))
               in if degree = [] then (if num < 0 then Inl ValueError else Inr ([], []))
                  else
                    (case geomspace (Min (set degree)) (Max (set degree)) num False of
                       Inl e \<Rightarrow> Inl e
                     | Inr bins \<Rightarrow>
                         (case digitize (map real degree) bins of
                            Inl e \<Rightarrow> Inl e
                          | Inr bin \<Rightarrow>
                              Inr (groupby_mean bin (map real degree),
                                   groupby_mean bin freq)))))"

definition right_prop :: "nat list \<Rightarrow> real \<Rightarrow> real" where
  \<comment> \<open>\<^verbatim>\<open>np.sum([i > split for i in degrees]).astype(float)/len(degrees)\<close>\<close>
  "right_prop degrees split =
     real (length (filter (\<lambda>i. split < real i) degrees)) / real (length degrees)"

definition vectorize :: "(real \<Rightarrow> real) \<Rightarrow> real list \<Rightarrow> py_error + real list" where
  \<comment> \<open>\<^verbatim>\<open>np.vectorize(f)(x)\<close> without \<open>otypes\<close>: refuses an input of size 0.\<close>
  "vectorize f x = (if x = [] then Inl ValueError else Inr (map f x))"

definition cumulative_distribution ::
  "nat list \<Rightarrow> int \<Rightarrow> py_error + (real list \<times> real list)" where
  "cumulative_distribution degrees n_bins =
     (case py_min degrees of
        Inl e \<Rightarrow> Inl e
      | Inr mn \<Rightarrow>
          (case py_max degrees of
             Inl e \<Rightarrow> Inl e
           | Inr mx \<Rightarrow>
               (case linspace (real mn) (real (mx + 1)) n_bins True of
                  Inl e \<Rightarrow> Inl e
                | Inr x \<Rightarrow>
                    (case vectorize (right_prop degrees) x of
                       Inl e \<Rightarrow> Inl e
                     | Inr y \<Rightarrow> Inr (x, y)))))"

definition log_cumulative_distribution ::
  "nat list \<Rightarrow> int \<Rightarrow> py_error + (real list \<times> real list)" where
  "log_cumulative_distribution degrees n_bins =
     (case py_min degrees of
        Inl e \<Rightarrow> Inl e
      | Inr mn \<Rightarrow>
          (case py_max degrees of
             Inl e \<Rightarrow> Inl e
           | Inr mx \<Rightarrow>
               (case geomspace (max 1 mn) (mx + 1) n_bins True of
                  Inl e \<Rightarrow> Inl e
                | Inr x \<Rightarrow>
                    (case vectorize (right_prop degrees) x of
                       Inl e \<Rightarrow> Inl e
                     | Inr y \<Rightarrow> Inr (x, y)))))"

section \<open>Reference forms of the distribution transforms\<close>

definition observed :: "nat list \<Rightarrow> nat list" where
  \<comment> \<open>The degree values in \<open>0..max\<close> that occur, ascending.\<close>
  "observed degrees =
     filter (\<lambda>v. count_list degrees v \<noteq> 0) [0..<Suc (Max (set degrees))]"

definition samples_div :: "int \<Rightarrow> bool \<Rightarrow> nat" where
  \<comment> \<open>The divisor \<open>div\<close> of \<^verbatim>\<open>np.linspace\<close>.\<close>
  "samples_div num endpoint = (if endpoint then nat num - 1 else nat num)"

definition linear_samples :: "real \<Rightarrow> real \<Rightarrow> nat \<Rightarrow> real list" where
  \<comment> \<open>\<open>n\<close> points in arithmetic progression from \<open>a\<close>, with step \<open>(b - a) / (n - 1)\<close>.\<close>
  "linear_samples a b n = map (\<lambda>i. a + real i * (b - a) / real (n - 1)) [0..<n]"

definition geometric_samples :: "real \<Rightarrow> real \<Rightarrow> nat \<Rightarrow> real list" where
  \<comment> \<open>\<open>n\<close> points in geometric progression from \<open>a\<close>, with ratio
      \<open>(b / a)\<close> to the power \<open>1 / (n - 1)\<close>.\<close>
  "geometric_samples a b n = map (\<lambda>i. a * (b / a) powr (real i / real (n - 1))) [0..<n]"

definition bin_boundary :: "nat \<Rightarrow> nat \<Rightarrow> nat \<Rightarrow> nat \<Rightarrow> real" where
  \<comment> \<open>The \<open>i\<close>-th of \<open>num\<close> boundaries in geometric progression from \<open>lo\<close> towards
      \<open>hi\<close>, the upper end itself not being a boundary.\<close>
  "bin_boundary lo hi num i = real lo * (real hi / real lo) powr (real i / real num)"

definition bin_members :: "nat \<Rightarrow> nat \<Rightarrow> nat \<Rightarrow> nat \<Rightarrow> nat list" where
  \<comment> \<open>The degree values of the domain \<open>lo..hi\<close> in bin \<open>j\<close> (\<open>1 \<le> j \<le> num\<close>): from
      boundary \<open>j - 1\<close> inclusive to boundary \<open>j\<close> exclusive; the last bin is unbounded.\<close>
  "bin_members lo hi num j =
     filter (\<lambda>d. bin_boundary lo hi num (j - 1) \<le> real d
                 \<and> (j = num \<or> real d < bin_boundary lo hi num j)) [lo..<Suc hi]"

definition log_binning_spec :: "nat list \<Rightarrow> nat \<Rightarrow> real list \<times> real list" where
  \<comment> \<open>One row per non-empty bin, bins ascending: the mean of the bin's degree values and
      the mean of their frequencies.\<close>
  "log_binning_spec degrees num =
     (let lo = max 1 (Min (set degrees));
          hi = Max (set degrees);
          bs = filter (\<lambda>j. bin_members lo hi num j \<noteq> []) [1..<Suc num]
      in (map (\<lambda>j. mean (map real (bin_members lo hi num j))) bs,
          map (\<lambda>j. mean (map (\<lambda>d. real (count_list degrees d) / real (length degrees))
                            (bin_members lo hi num j))) bs))"



section \<open>Graph records, text files and the file system\<close>

text \<open>
  A text file is a list of lines, a line a list of whitespace-separated tokens. A token is
  modelled by what it denotes: an integer literal, a decimal literal (a float) or any
  other word. Writing a float and reading it back is exact here; the rounding of pandas'
  float formatting and parsing is outside the model.
\<close>

datatype token = IntF int | FloatF real | NameF string

type_synonym text_file = "token list list"

text \<open>
  The file system maps path strings to directories and regular files. Paths are compared
  as strings, the entries of a directory are the paths one \<^verbatim>\<open>os.path.join\<close> below it,
  and the parent directory of a path that is written or created is taken to exist.
\<close>

datatype fs_node = Dir | File text_file

type_synonym fs = "(string \<times> fs_node) list"

text \<open>
  A column read from a table is a numeric array when every cell is a number, and an
  object array of the cells otherwise.
\<close>

datatype ndarray = FloatArray "real list" | ObjectArray "token list"

text \<open>
  A \<^verbatim>\<open>networkx.DiGraph\<close> without edge data: the nodes in insertion order, each with
  its successors in insertion order.
\<close>

type_synonym digraph = "(int \<times> int list) list"

text \<open>A data frame: the columns in order, each a name and its cells.\<close>

type_synonym dataframe = "(token \<times> token list) list"

definition path_join :: "string \<Rightarrow> string \<Rightarrow> string" where
  \<comment> \<open>\<^verbatim>\<open>os.path.join(a, b)\<close> on POSIX.\<close>
  "path_join a b =
     (if b \<noteq> [] \<and> hd b = CHR ''/'' then b
      else if a = [] \<or> last a = CHR ''/'' then a @ b
      else a @ ''/'' @ b)"

definition os_path_exists :: "fs \<Rightarrow> string \<Rightarrow> bool" where
  "os_path_exists fs p = (map_of fs p \<noteq> None)"

definition child_name :: "string \<Rightarrow> string \<Rightarrow> string option" where
  \<comment> \<open>The name under which path \<open>q\<close> is an entry of directory \<open>p\<close>, if it is one.\<close>
  "child_name p q =
     (let pre = path_join p [] in
      if length pre < length q \<and> take (length pre) q = pre
         \<and> CHR ''/'' \<notin> set (drop (length pre) q)
      then Some (drop (length pre) q) else None)"

definition os_listdir :: "fs \<Rightarrow> string \<Rightarrow> py_error + string list" where
  \<comment> \<open>\<^verbatim>\<open>os.listdir(p)\<close>: the entry names, files and directories alike.\<close>
  "os_listdir fs p =
     (case map_of fs p of
        None \<Rightarrow> Inl FileNotFoundError
      | Some (File c) \<Rightarrow> Inl NotADirectoryError
      | Some Dir \<Rightarrow> Inr (remdups (List.map_filter (\<lambda>(q, n). child_name p q) fs)))"

definition os_mkdir :: "string \<Rightarrow> fs \<Rightarrow> (py_error + unit) \<times> fs" where
  "os_mkdir p fs =
     (if os_path_exists fs p then (Inl FileExistsError, fs) else (Inr (), fs @ [(p, Dir)]))"

definition open_write :: "string \<Rightarrow> text_file \<Rightarrow> fs \<Rightarrow> (py_error + unit) \<times> fs" where
  \<comment> \<open>Opening \<open>p\<close> for writing and writing the text: creates or replaces the file.\<close>
  "open_write p txt fs =
     (if map_of fs p = Some Dir then (Inl IsADirectoryError, fs)
      else (Inr (), AList.update p (File txt) fs))"

definition open_read :: "fs \<Rightarrow> string \<Rightarrow> py_error + text_file" where
  "open_read fs p =
     (case map_of fs p of
        None \<Rightarrow> Inl FileNotFoundError
      | Some Dir \<Rightarrow> Inl IsADirectoryError
      | Some (File txt) \<Rightarrow> Inr txt)"

definition nodes :: "digraph \<Rightarrow> int list" where
  "nodes G = map fst G"

definition edges :: "digraph \<Rightarrow> (int \<times> int) list" where
  "edges G = concat (map (\<lambda>(u, vs). map (Pair u) vs) G)"

definition add_node :: "int \<Rightarrow> digraph \<Rightarrow> digraph" where
  \<comment> \<open>\<^verbatim>\<open>G.add_node(u)\<close>: no change when the node is present.\<close>
  "add_node u G = (if u \<in> set (nodes G) then G else G @ [(u, [])])"

definition add_edge :: "int \<Rightarrow> int \<Rightarrow> digraph \<Rightarrow> digraph" where
  \<comment> \<open>\<^verbatim>\<open>G.add_edge(u, v)\<close>: adds missing end nodes, then the arc if it is new.\<close>
  "add_edge u v G =
     map (\<lambda>(w, vs). if w = u \<and> v \<notin> set vs then (w, vs @ [v]) else (w, vs))
       (add_node v (add_node u G))"

definition add_nodes_from :: "int list \<Rightarrow> digraph \<Rightarrow> digraph" where
  "add_nodes_from us G = fold add_node us G"

definition write_edgelist :: "digraph \<Rightarrow> text_file" where
  \<comment> \<open>\<^verbatim>\<open>nx.write_edgelist(G, path, data=False)\<close>: one line \<open>u v\<close> per arc.\<close>
  "write_edgelist G = map (\<lambda>(u, v). [IntF u, IntF v]) (edges G)"

text \<open>
  \<^verbatim>\<open>nx.read_edgelist(path, create_using=nx.DiGraph(), nodetype=int)\<close>: a line with fewer
  than two tokens is skipped; the first two tokens must convert to \<open>int\<close>; further
  tokens are read as an edge-data dictionary, which the files written with
  \<open>data=False\<close> never hold, and are reported as the TypeError of a failed conversion.
\<close>

fun parse_edgelist :: "text_file \<Rightarrow> digraph \<Rightarrow> py_error + digraph" where
  "parse_edgelist [] G = Inr G"
| "parse_edgelist (s # ls) G =
     (if length s < 2 then parse_edgelist ls G
      else
        (case (s ! 0, s ! 1) of
           (IntF u, IntF v) \<Rightarrow>
             (if drop 2 s = [] then parse_edgelist ls (add_edge u v G) else Inl TypeError)
         | _ \<Rightarrow> Inl TypeError))"

definition DataFrame :: "(string \<times> real list) list \<Rightarrow> py_error + dataframe" where
  \<comment> \<open>\<^verbatim>\<open>pd.DataFrame(dict(...))\<close> from float arrays: all must have one length.\<close>
  "DataFrame d =
     (if list_all (\<lambda>(c, a). length a = length (snd (hd d))) d
      then Inr (map (\<lambda>(c, a). (NameF c, map FloatF a)) d)
      else Inl ValueError)"

definition df_len :: "dataframe \<Rightarrow> nat" where
  "df_len df = (case df of [] \<Rightarrow> 0 | (c, cells) # _ \<Rightarrow> length cells)"

definition to_csv :: "dataframe \<Rightarrow> text_file" where
  \<comment> \<open>\<^verbatim>\<open>df.to_csv(path, index=None, sep=' ')\<close>: the header, then one line per row;
      a frame without columns is written as one line holding an empty name.\<close>
  "to_csv df =
     (if df = [] then [[NameF []]]
      else map fst df # map (\<lambda>i. map (\<lambda>(c, cells). cells ! i) df) [0..<df_len df])"

definition read_csv :: "text_file \<Rightarrow> py_error + dataframe" where
  \<comment> \<open>\<^verbatim>\<open>pd.read_csv(path, delimiter=' ')\<close>: blank lines are skipped, the first line
      names the columns, every further line is a row. A row whose number of cells
      differs from the header's (which pandas pads or reads as an index) is reported as
      ParserError.\<close>
  "read_csv txt =
     (case filter (\<lambda>l. l \<noteq> []) txt of
        [] \<Rightarrow> Inl EmptyDataError
      | header # rows \<Rightarrow>
          if list_all (\<lambda>r. length r = length header) rows
          then Inr (map (\<lambda>k. (header ! k, map (\<lambda>r. r ! k) rows)) [0..<length header])
          else Inl ParserError)"

fun token_value :: "token \<Rightarrow> real option" where
  "token_value (IntF i) = Some (real_of_int i)"
| "token_value (FloatF r) = Some r"
| "token_value (NameF s) = None"

definition df_values :: "dataframe \<Rightarrow> string \<Rightarrow> py_error + ndarray" where
  \<comment> \<open>\<^verbatim>\<open>df[col].values\<close>: KeyError when no column has that name.\<close>
  "df_values df col =
     (case map_of df (NameF col) of
        None \<Rightarrow> Inl KeyError
      | Some cells \<Rightarrow>
          if list_all (\<lambda>c. token_value c \<noteq> None) cells
          then Inr (FloatArray (map (\<lambda>c. the (token_value c)) cells))
          else Inr (ObjectArray cells))"

text \<open>The results of a sequence of steps, up to the first error.\<close>

fun sequence_sum :: "('e + 'a) list \<Rightarrow> 'e + 'a list" where
  "sequence_sum [] = Inr []"
| "sequence_sum (x # xs) =
     (case x of
        Inl e \<Rightarrow> Inl e
      | Inr v \<Rightarrow> (case sequence_sum xs of Inl e \<Rightarrow> Inl e | Inr vs \<Rightarrow> Inr (v # vs)))"

definition coord_columns :: "nat \<Rightarrow> string list" where
  \<comment> \<open>The \<open>cols\<close> of both \<open>save_G_coords\<close> and \<open>get_G_coords\<close>.\<close>
  "coord_columns n = (if n = 2 then [''theta'', ''radius'']
                      else [''theta'', ''radius_p'', ''radius_m''])"

section \<open>Saving and loading graph records\<close>

definition save_G_coords ::
  "digraph \<times> real list list \<Rightarrow> string \<Rightarrow> string \<Rightarrow> fs \<Rightarrow> (py_error + unit) \<times> fs" where
  "save_G_coords G_coords edgelist_path coords_path fs =
     (case G_coords of (G, coords) \<Rightarrow>
        (case open_write edgelist_path (write_edgelist G) fs of
           (Inl e, fs1) \<Rightarrow> (Inl e, fs1)
         | (Inr u, fs1) \<Rightarrow>
             let cols = coord_columns (length coords) in
             (case DataFrame (zip cols coords) of
                Inl e \<Rightarrow> (Inl e, fs1)
              | Inr df \<Rightarrow> open_write coords_path (to_csv df) fs1)))"

definition get_G_coords ::
  "string \<Rightarrow> string \<Rightarrow> fs \<Rightarrow> py_error + (digraph \<times> ndarray list)" where
  "get_G_coords edgelist_path coords_path fs =
     (case open_read fs coords_path of
        Inl e \<Rightarrow> Inl e
      | Inr ctxt \<Rightarrow>
          (case read_csv ctxt of
             Inl e \<Rightarrow> Inl e
           | Inr df \<Rightarrow>
               let cols = coord_columns (length df) in
               (case sequence_sum (map (df_values df) cols) of
                  Inl e \<Rightarrow> Inl e
                | Inr coords \<Rightarrow>
                    (case open_read fs edgelist_path of
                       Inl e \<Rightarrow> Inl e
                     | Inr etxt \<Rightarrow>
                         (case parse_edgelist etxt [] of
                            Inl e \<Rightarrow> Inl e
                          | Inr G \<Rightarrow>
                              Inr (add_nodes_from (map int [0..<df_len df]) G, coords))))))"

text \<open>The decimal digits of an index, as \<^verbatim>\<open>'{}'.format(i)\<close> writes them.\<close>

fun string_of_nat :: "nat \<Rightarrow> string" where
  "string_of_nat n =
     (if n < 10 then [char_of (48 + n)]
      else string_of_nat (n div 10) @ [char_of (48 + n mod 10)])"

declare string_of_nat.simps [simp del]

text \<open>The loop of \<open>save_networks\<close> over \<^verbatim>\<open>enumerate(networks)\<close>.\<close>

fun save_loop ::
  "nat \<Rightarrow> (digraph \<times> real list list) list \<Rightarrow> string \<Rightarrow> fs \<Rightarrow> (py_error + unit) \<times> fs" where
  "save_loop i [] path fs = (Inr (), fs)"
| "save_loop i (G_coords # networks) path fs =
     (let e_path = path_join path (''edgelist_'' @ string_of_nat i @ ''.txt'');
          c_path = path_join path (''coords_'' @ string_of_nat i @ ''.txt'')
      in case save_G_coords G_coords e_path c_path fs of
           (Inl e, fs1) \<Rightarrow> (Inl e, fs1)
         | (Inr u, fs1) \<Rightarrow> save_loop (Suc i) networks path fs1)"

definition save_networks ::
  "(digraph \<times> real list list) list \<Rightarrow> string \<Rightarrow> fs \<Rightarrow> (py_error + unit) \<times> fs" where
  "save_networks networks path fs =
     (if \<not> os_path_exists fs path then
        (case os_mkdir path fs of
           (Inl e, fs1) \<Rightarrow> (Inl e, fs1)
         | (Inr u, fs1) \<Rightarrow> save_loop 0 networks path fs1)
      else
        (case os_listdir fs path of
           Inl e \<Rightarrow> (Inl e, fs)
         | Inr names \<Rightarrow>
             if 0 < length names then (Inl DirectoryNotEmpty, fs)
             else save_loop 0 networks path fs))"

text \<open>\<^verbatim>\<open>s in p\<close> on strings: \<open>s\<close> occurs in \<open>p\<close> as a substring.\<close>

fun contains :: "string \<Rightarrow> string \<Rightarrow> bool" where
  "contains s [] = (s = [])"
| "contains s (c # cs) = (take (length s) (c # cs) = s \<or> contains s cs)"

definition get_networks :: "string \<Rightarrow> fs \<Rightarrow> py_error + (digraph \<times> ndarray list) list" where
  "get_networks path fs =
     (case os_listdir fs path of
        Inl e \<Rightarrow> Inl e
      | Inr names \<Rightarrow>
          let edgelist_paths = sort (map (path_join path) (filter (contains ''edgelist'') names));
              coords_paths = sort (map (path_join path) (filter (contains ''coords'') names))
          in sequence_sum (map (\<lambda>(e_path, c_path). get_G_coords e_path c_path fs)
                             (zip edgelist_paths coords_paths)))"

section \<open>The non-zero frequency distribution\<close>

lemma length_bincount: "xs \<noteq> [] \<Longrightarrow> length (bincount xs) = Suc (Max (set xs))"
  by (simp add: bincount_def)

lemma nonzero_rho:
  assumes "degrees \<noteq> []"
  shows "nonzero (map (\<lambda>c. real c / real (length degrees)) (bincount degrees))
           = filter (\<lambda>v. v \<in> set degrees) [0..<Suc (Max (set degrees))]"
proof -
  let ?rho = "map (\<lambda>c. real c / real (length degrees)) (bincount degrees)"
  have len: "0 < length degrees" using assms by simp
  have nth: "?rho ! i \<noteq> 0 \<longleftrightarrow> i \<in> set degrees" if "i < Suc (Max (set degrees))" for i
  proof -
    have "?rho ! i = real (count_list degrees i) / real (length degrees)"
      using that assms by (simp add: bincount_def del: upt_Suc)
    then show ?thesis using len by (simp add: count_list_0_iff)
  qed
  have "filter (\<lambda>i. ?rho ! i \<noteq> 0) [0..<Suc (Max (set degrees))]
          = filter (\<lambda>v. v \<in> set degrees) [0..<Suc (Max (set degrees))]"
    by (rule filter_cong) (simp_all add: nth del: upt_Suc)
  then show ?thesis
    unfolding nonzero_def using assms by (simp add: length_bincount del: upt_Suc)
qed

lemma observed_in_range:
  assumes "degrees \<noteq> []"
  shows "list_all (\<lambda>i. i < n) (filter (\<lambda>v. v \<in> set degrees) [0..<Suc (Max (set degrees))])
           = (Max (set degrees) < n)"
proof
  assume a: "list_all (\<lambda>i. i < n) (filter (\<lambda>v. v \<in> set degrees) [0..<Suc (Max (set degrees))])"
  have "Max (set degrees) \<in> set degrees" using assms by (simp add: Max_in)
  then have "Max (set degrees) \<in> set (filter (\<lambda>v. v \<in> set degrees) [0..<Suc (Max (set degrees))])"
    by simp
  with a show "Max (set degrees) < n" unfolding list_all_iff by blast
next
  assume "Max (set degrees) < n"
  then show "list_all (\<lambda>i. i < n) (filter (\<lambda>v. v \<in> set degrees) [0..<Suc (Max (set degrees))])"
    unfolding list_all_iff by auto
qed

lemma degree_distribution_cases:
  assumes "degrees \<noteq> []"
  shows "degree_distribution degrees =
           (if Max (set degrees) < length degrees
            then Inr (observed degrees,
                      map (\<lambda>v. real (count_list degrees v) / real (length degrees))
                        (observed degrees))
            else Inl IndexError)"
proof -
  let ?rho = "map (\<lambda>c. real c / real (length degrees)) (bincount degrees)"
  let ?nz = "filter (\<lambda>v. v \<in> set degrees) [0..<Suc (Max (set degrees))]"
  have nz: "nonzero ?rho = ?nz" by (rule nonzero_rho [OF assms])
  have obs: "observed degrees = ?nz"
    by (simp add: observed_def count_list_0_iff del: upt_Suc)
  show ?thesis
  proof (cases "Max (set degrees) < length degrees")
    case True
    have k: "fancy_index (arange (length degrees)) ?nz = Inr ?nz"
      using observed_in_range [OF assms, of "length degrees"] True
      by (auto simp add: fancy_index_def arange_def list_all_iff simp del: upt_Suc intro!: map_idI)
    have all2: "list_all (\<lambda>i. i < length ?rho) ?nz"
      using assms by (simp add: list_all_iff length_bincount del: upt_Suc)
    have r: "fancy_index ?rho ?nz
               = Inr (map (\<lambda>v. real (count_list degrees v) / real (length degrees)) ?nz)"
      using all2 assms
      by (auto simp add: fancy_index_def bincount_def simp del: upt_Suc)
    show ?thesis
      using True by (simp add: degree_distribution_def Let_def nz k r obs del: upt_Suc)
  next
    case False
    have "fancy_index (arange (length degrees)) ?nz = Inl IndexError"
      using observed_in_range [OF assms, of "length degrees"] False
      by (simp add: fancy_index_def arange_def del: upt_Suc)
    then show ?thesis
      using False by (simp add: degree_distribution_def Let_def nz del: upt_Suc)
  qed
qed

lemma degree_distribution_example:
  "degree_distribution [1, 1, 2, 3, 3, 3] = Inr ([1, 2, 3], [2 / 6, 1 / 6, 3 / 6])"
  by code_simp

text \<open>
  C1. The claim says that \<open>degree_distribution\<close> returns the observed degree values and
  their relative frequencies for every non-empty degree sequence. The code takes the
  degree values from a range of length \<open>len(degrees)\<close> instead of the length of the
  frequency table: on the total degrees \<open>[2, 2]\<close> of the two-node graph with both arcs,
  the table has three entries, position \<open>2\<close> is outside the range, and the call raises
  IndexError instead of returning \<open>k = [2]\<close>, \<open>rho_k = [1]\<close>.
\<close>

theorem degree_distribution_two_node_cycle:
  "degree_distribution [2, 2] = Inl IndexError"
  by code_simp

text \<open>
  C2. For a non-empty degree sequence, \<open>degree_distribution\<close> fails with an
  out-of-bounds index error exactly when its largest degree is at least its length, and
  returns a series exactly when the largest degree is below the length.
\<close>

theorem degree_distribution_index_error:
  assumes "degrees \<noteq> []"
  shows "(length degrees \<le> Max (set degrees) \<longrightarrow> degree_distribution degrees = Inl IndexError)
       \<and> (isl (degree_distribution degrees) \<longleftrightarrow> length degrees \<le> Max (set degrees))"
proof (cases "Max (set degrees) < length degrees")
  case True
  then have "degree_distribution degrees
               = Inr (observed degrees,
                      map (\<lambda>v. real (count_list degrees v) / real (length degrees))
                        (observed degrees))"
    by (simp only: degree_distribution_cases [OF assms] if_True)
  with True show ?thesis by simp
next
  case False
  then have "degree_distribution degrees = Inl IndexError"
    by (simp only: degree_distribution_cases [OF assms] if_False)
  with False show ?thesis by simp
qed

theorem degree_distribution_index_error_witness:
  "[0, 5, 5] \<noteq> ([] :: nat list)
   \<and> degree_distribution [0, 5, 5] = Inl IndexError
   \<and> isl (degree_distribution [0, 5, 5])"
  using degree_distribution_index_error [of "[0, 5, 5]"] by simp

section \<open>Linear and geometric sample sequences\<close>

lemma linspace_closed_form:
  assumes "0 \<le> num"
  shows "linspace a b num ep
           = Inr (map (\<lambda>i. a + real i * (b - a) / real (samples_div num ep)) [0..<nat num])"
proof -
  let ?n = "nat num"
  let ?dv = "samples_div num ep"
  let ?y = "map (\<lambda>i. if 0 < ?dv then real i * ((b - a) / real ?dv) + a
                          else real i * (b - a) + a) [0..<?n]"
  let ?r = "if ep \<and> 1 < ?n then ?y[?n - 1 := b] else ?y"
  have "?r = map (\<lambda>i. a + real i * (b - a) / real ?dv) [0..<?n]"
  proof (rule nth_equalityI)
    show "length ?r = length (map (\<lambda>i. a + real i * (b - a) / real ?dv) [0..<?n])" by simp
  next
    fix i assume "i < length ?r"
    then have i: "i < ?n" by (simp split: if_splits)
    show "?r ! i = map (\<lambda>i. a + real i * (b - a) / real ?dv) [0..<?n] ! i"
    proof (cases "ep \<and> 1 < ?n \<and> i = ?n - 1")
      case True
      then have "?r ! i = b" using i by simp
      moreover have "real i = real ?dv" "real ?dv \<noteq> 0"
        using True by (auto simp add: samples_div_def)
      ultimately show ?thesis using i by simp
    next
      case False
      then have ri: "?r ! i = ?y ! i" using i by auto
      show ?thesis
      proof (cases "0 < ?dv")
        case True
        then show ?thesis using i ri by simp
      next
        case False
        then have "i = 0" using i by (auto simp add: samples_div_def split: if_splits)
        then show ?thesis using i ri False by simp
      qed
    qed
  qed
  then show ?thesis
    using assms unfolding linspace_def Let_def samples_div_def by simp
qed

lemma geomspace_closed_form:
  assumes "0 \<le> num" "0 < s" "0 < t"
  shows "geomspace s t num ep
           = Inr (map (\<lambda>i. real s * (real t / real s) powr (real i / real (samples_div num ep)))
                    [0..<nat num])"
proof -
  let ?n = "nat num"
  let ?dv = "samples_div num ep"
  let ?ls = "map (\<lambda>i. log 10 (real s) + real i * (log 10 (real t) - log 10 (real s)) / real ?dv) [0..<?n]"
  let ?g = "\<lambda>i. real s * (real t / real s) powr (real i / real ?dv)"
  have el: "10 powr (log 10 (real s) + real i * (log 10 (real t) - log 10 (real s)) / real ?dv) = ?g i" for i
  proof -
    have "log 10 (real t) - log 10 (real s) = log 10 (real t / real s)"
      using assms by (simp add: log_divide)
    then have "10 powr (log 10 (real s) + real i * (log 10 (real t) - log 10 (real s)) / real ?dv)
             = 10 powr (log 10 (real s)) * 10 powr ((real i / real ?dv) * log 10 (real t / real s))"
      by (simp add: powr_add)
    also have "10 powr (log 10 (real s)) = real s" using assms by simp
    also have "10 powr ((real i / real ?dv) * log 10 (real t / real s))
                 = (10 powr log 10 (real t / real s)) powr (real i / real ?dv)"
      by (simp add: powr_powr mult.commute)
    also have "10 powr log 10 (real t / real s) = real t / real s" using assms by simp
    finally show ?thesis .
  qed
  let ?r0 = "map (\<lambda>e. 10 powr e) ?ls"
  have r0: "?r0 = map ?g [0..<?n]" by (simp add: el)
  have g0: "?g 0 = real s" using assms by simp
  have glast: "?g (?n - 1) = real t" if "1 < num \<and> ep"
  proof -
    have "real ?dv \<noteq> 0" "real (?n - 1) = real ?dv"
      using that by (auto simp add: samples_div_def)
    then have e: "real (?n - 1) / real ?dv = 1" by simp
    have pos: "0 < real t / real s" using assms by simp
    have "?g (?n - 1) = real s * (real t / real s) powr 1" by (simp only: e)
    also have "\<dots> = real s * (real t / real s)" using pos by simp
    also have "\<dots> = real t" using assms by simp
    finally show ?thesis .
  qed
  have u0: "(map ?g [0..<?n])[0 := real s] = map ?g [0..<?n]"
    by (rule nth_equalityI) (use assms in \<open>auto simp add: nth_list_update\<close>)
  have u1: "(map ?g [0..<?n])[?n - 1 := real t] = map ?g [0..<?n]" if "1 < num \<and> ep"
    by (rule nth_equalityI) (use glast[OF that] in \<open>auto simp add: nth_list_update\<close>)
  have ls: "linspace (log 10 (real s)) (log 10 (real t)) num ep = Inr ?ls"
    by (rule linspace_closed_form [OF assms(1)])
  let ?r1 = "if 0 < num then ?r0[0 := real s] else ?r0"
  let ?r2 = "if 1 < num \<and> ep then ?r1[nat num - 1 := real t] else ?r1"
  have r1: "?r1 = map ?g [0..<?n]" by (simp only: r0 u0 if_cancel)
  have r2: "?r2 = map ?g [0..<?n]"
  proof (cases "1 < num \<and> ep")
    case True
    have "?r2 = ?r1[nat num - 1 := real t]" by (rule if_P [OF True])
    also have "\<dots> = (map ?g [0..<?n])[nat num - 1 := real t]" by (simp only: r1)
    also have "\<dots> = map ?g [0..<?n]" by (rule u1 [OF True])
    finally show ?thesis .
  next
    case False
    have "?r2 = ?r1" by (rule if_not_P [OF False])
    then show ?thesis by (simp only: r1)
  qed
  have nz: "\<not> (s = 0 \<or> t = 0)" using assms by simp
  have "geomspace s t num ep = Inr ?r2"
    by (simp only: geomspace_def nz if_False ls sum.case Let_def)
  then show ?thesis by (simp only: r2)
qed

lemma cumulative_distribution_closed_form:
  assumes "degrees \<noteq> []" "1 \<le> n_bins"
  shows "cumulative_distribution degrees n_bins
           = Inr (linear_samples (real (Min (set degrees))) (real (Max (set degrees)) + 1) (nat n_bins),
                  map (right_prop degrees)
                    (linear_samples (real (Min (set degrees))) (real (Max (set degrees)) + 1) (nat n_bins)))"
proof -
  let ?x = "linear_samples (real (Min (set degrees))) (real (Max (set degrees)) + 1) (nat n_bins)"
  have n: "0 \<le> n_bins" using assms by simp
  have ne: "?x \<noteq> []"
    using assms by (simp add: linear_samples_def)
  have e: "real (Max (set degrees) + 1) = real (Max (set degrees)) + 1" by simp
  have l: "linspace (real (Min (set degrees))) (real (Max (set degrees) + 1)) n_bins True = Inr ?x"
    by (simp only: linspace_closed_form [OF n] samples_div_def if_True linear_samples_def e)
  show ?thesis
    by (simp only: cumulative_distribution_def py_min_def py_max_def if_not_P [OF assms(1)]
        sum.case l vectorize_def if_not_P [OF ne])
qed

lemma log_cumulative_distribution_closed_form:
  assumes "degrees \<noteq> []" "1 \<le> n_bins"
  shows "log_cumulative_distribution degrees n_bins
           = Inr (geometric_samples (real (max 1 (Min (set degrees)))) (real (Max (set degrees)) + 1) (nat n_bins),
                  map (right_prop degrees)
                    (geometric_samples (real (max 1 (Min (set degrees)))) (real (Max (set degrees)) + 1) (nat n_bins)))"
proof -
  let ?x = "geometric_samples (real (max 1 (Min (set degrees)))) (real (Max (set degrees)) + 1) (nat n_bins)"
  have n: "0 \<le> n_bins" using assms by simp
  have s: "0 < max 1 (Min (set degrees))" by simp
  have t: "0 < Max (set degrees) + 1" by simp
  have ne: "?x \<noteq> []"
    using assms by (simp add: geometric_samples_def)
  have e: "real (Max (set degrees) + 1) = real (Max (set degrees)) + 1" by simp
  have g: "geomspace (max 1 (Min (set degrees))) (Max (set degrees) + 1) n_bins True = Inr ?x"
    by (simp only: geomspace_closed_form [OF n s t] samples_div_def if_True geometric_samples_def e)
  show ?thesis
    by (simp only: log_cumulative_distribution_def py_min_def py_max_def if_not_P [OF assms(1)]
        sum.case g vectorize_def if_not_P [OF ne])
qed

lemma length_linear_samples: "length (linear_samples a b n) = n"
  by (simp add: linear_samples_def)

lemma linear_samples_nth: "i < n \<Longrightarrow> linear_samples a b n ! i = a + real i * (b - a) / real (n - 1)"
  by (simp add: linear_samples_def)

lemma linear_samples_first: "0 < n \<Longrightarrow> linear_samples a b n ! 0 = a"
  by (simp add: linear_samples_def)


lemma linear_samples_step:
  assumes "Suc i < n"
  shows "linear_samples a b n ! Suc i - linear_samples a b n ! i = (b - a) / real (n - 1)"
proof -
  have "linear_samples a b n ! Suc i = a + (real i + 1) * (b - a) / real (n - 1)"
    using assms by (simp add: linear_samples_nth)
  moreover have "linear_samples a b n ! i = a + real i * (b - a) / real (n - 1)"
    using assms by (simp add: linear_samples_nth)
  moreover have "(real i + 1) * (b - a) / real (n - 1)
                   = real i * (b - a) / real (n - 1) + (b - a) / real (n - 1)"
    by (simp add: distrib_right add_divide_distrib)
  ultimately show ?thesis by simp
qed

lemma linear_samples_one: "linear_samples a b 1 = [a]"
  by (simp add: linear_samples_def)

lemma length_geometric_samples: "length (geometric_samples a b n) = n"
  by (simp add: geometric_samples_def)

lemma geometric_samples_nth:
  "i < n \<Longrightarrow> geometric_samples a b n ! i = a * (b / a) powr (real i / real (n - 1))"
  by (simp add: geometric_samples_def)



lemma geometric_samples_ratio:
  assumes "Suc i < n" "0 < a" "0 < b"
  shows "geometric_samples a b n ! Suc i
           = geometric_samples a b n ! i * (b / a) powr (1 / real (n - 1))"
proof -
  have "real (Suc i) / real (n - 1) = real i / real (n - 1) + 1 / real (n - 1)"
    by (simp add: add_divide_distrib)
  then have "(b / a) powr (real (Suc i) / real (n - 1))
               = (b / a) powr (real i / real (n - 1)) * (b / a) powr (1 / real (n - 1))"
    by (simp only: powr_add)
  then show ?thesis using assms by (simp add: geometric_samples_nth)
qed


lemma right_prop_antimono: "s \<le> s' \<Longrightarrow> right_prop degrees s' \<le> right_prop degrees s"
proof -
  assume le: "s \<le> s'"
  have "length (filter (\<lambda>i. s' < real i) degrees) \<le> length (filter (\<lambda>i. s < real i) degrees)"
  proof (induction degrees)
    case Nil
    show ?case by simp
  next
    case (Cons d ds)
    then show ?case using le by auto
  qed
  then show ?thesis by (simp add: right_prop_def divide_right_mono)
qed

lemma linear_samples_mono:
  assumes "a \<le> b" "i \<le> j" "j < n"
  shows "linear_samples a b n ! i \<le> linear_samples a b n ! j"
proof -
  have "real i * (b - a) \<le> real j * (b - a)"
    using assms by (simp add: mult_right_mono)
  then have "real i * (b - a) / real (n - 1) \<le> real j * (b - a) / real (n - 1)"
    by (simp add: divide_right_mono)
  then show ?thesis using assms by (simp add: linear_samples_nth)
qed

section \<open>The cumulative distributions\<close>





lemma sorted_linear_samples: "a \<le> b \<Longrightarrow> sorted (linear_samples a b n)"
  by (simp add: sorted_iff_nth_mono length_linear_samples linear_samples_mono)

lemma sorted_rev_map_antimono:
  assumes "\<And>s s'. s \<le> s' \<Longrightarrow> f s' \<le> f s"
  shows "sorted xs \<Longrightarrow> sorted (rev (map f xs))"
proof (induction xs)
  case Nil
  show ?case by simp
next
  case (Cons x xs)
  then have "sorted (rev (map f xs))" by simp
  moreover have "\<forall>y\<in>set xs. f y \<le> f x" using Cons.prems assms by auto
  ultimately show ?case by (auto simp add: sorted_append)
qed

text \<open>
  C7. For every non-empty degree sequence and every \<open>n_bins \<ge> 1\<close>, the sample points
  \<open>x\<close> of \<open>cumulative_distribution\<close> ascend, its \<open>y\<close> values never increase along
  them, the first sample point is \<open>min(degrees)\<close>, and the value there is the number of
  degrees strictly greater than \<open>min(degrees)\<close> divided by \<open>len(degrees)\<close>.
\<close>

theorem cumulative_distribution_non_increasing:
  assumes "degrees \<noteq> []" "1 \<le> n_bins"
  shows "\<exists>x y. cumulative_distribution degrees n_bins = Inr (x, y)
           \<and> length x = nat n_bins \<and> length y = nat n_bins
           \<and> sorted x \<and> sorted (rev y)
           \<and> hd x = real (Min (set degrees))
           \<and> hd y = real (length (filter (\<lambda>d. Min (set degrees) < d) degrees))
                      / real (length degrees)"
proof -
  let ?a = "real (Min (set degrees))"
  let ?b = "real (Max (set degrees)) + 1"
  let ?x = "linear_samples ?a ?b (nat n_bins)"
  let ?y = "map (right_prop degrees) ?x"
  have le: "Min (set degrees) \<le> Max (set degrees)"
    using assms by (simp add: Min_le_iff)
  then have ab: "?a \<le> ?b" by simp
  have ne: "?x \<noteq> []" using assms by (simp add: linear_samples_def)
  have hx: "hd ?x = ?a"
    using ne assms by (simp add: hd_conv_nth linear_samples_first)
  have hy: "hd ?y = right_prop degrees ?a"
    using ne hx by (simp add: hd_map)
  have "cumulative_distribution degrees n_bins = Inr (?x, ?y)"
    by (rule cumulative_distribution_closed_form [OF assms])
  moreover have "length ?x = nat n_bins" "length ?y = nat n_bins"
    by (simp_all add: length_linear_samples)
  moreover have "sorted ?x" by (rule sorted_linear_samples [OF ab])
  moreover have "sorted (rev ?y)"
    by (rule sorted_rev_map_antimono [OF right_prop_antimono sorted_linear_samples [OF ab]])
  moreover have "hd ?y = real (length (filter (\<lambda>d. Min (set degrees) < d) degrees))
                          / real (length degrees)"
    by (simp add: hy right_prop_def)
  ultimately show ?thesis using hx by blast
qed

theorem cumulative_distribution_non_increasing_witness:
  "[1, 1, 2, 3, 3, 3] \<noteq> ([] :: nat list) \<and> (1 :: int) \<le> 4
   \<and> (\<exists>x y. cumulative_distribution [1, 1, 2, 3, 3, 3] 4 = Inr (x, y)
           \<and> length x = 4 \<and> length y = 4
           \<and> sorted x \<and> sorted (rev y) \<and> hd x = 1 \<and> hd y = 4 / 6)"
proof -
  have h1: "[1, 1, 2, 3, 3, 3] \<noteq> ([] :: nat list)" by simp
  have h2: "(1 :: int) \<le> 4" by simp
  show ?thesis
    using cumulative_distribution_non_increasing [OF h1 h2] by simp
qed

lemma cumulative_distribution_spec_example:
  "cumulative_distribution [1, 1, 2, 3, 3, 3] 4 = Inr ([1, 2, 3, 4], [4 / 6, 3 / 6, 0, 0])"
proof -
  have s: "linear_samples 1 4 4 = [1, 2, 3, 4]"
    by (simp add: linear_samples_def upt_rec)
  show ?thesis
    using cumulative_distribution_closed_form [of "[1, 1, 2, 3, 3, 3]" 4]
    by (simp add: s right_prop_def)
qed




section \<open>Logarithmic binning\<close>

lemma filter_le_sorted_takeWhile:
  "sorted xs \<Longrightarrow> filter (\<lambda>b. b \<le> v) xs = takeWhile (\<lambda>b. b \<le> v) (xs :: real list)"
proof (induction xs)
  case Nil
  show ?case by simp
next
  case (Cons x xs)
  show ?case
  proof (cases "x \<le> v")
    case True
    with Cons show ?thesis by simp
  next
    case False
    then have "\<forall>y\<in>set xs. \<not> y \<le> v" using Cons.prems by auto
    then have "filter (\<lambda>b. b \<le> v) xs = []" by (simp add: filter_empty_conv)
    with False show ?thesis by simp
  qed
qed

lemma count_le_sorted_iff:
  fixes bins :: "real list"
  assumes "sorted bins" "1 \<le> j" "j \<le> length bins"
  shows "length (filter (\<lambda>b. b \<le> v) bins) = j
           \<longleftrightarrow> bins ! (j - 1) \<le> v \<and> (j = length bins \<or> v < bins ! j)"
proof -
  let ?P = "\<lambda>b. b \<le> v"
  let ?k = "length (takeWhile ?P bins)"
  have fk: "length (filter ?P bins) = ?k"
    by (simp add: filter_le_sorted_takeWhile [OF assms(1)])
  have kle: "?k \<le> length bins" by (rule length_takeWhile_le)
  have below: "bins ! i \<le> v" if "i < ?k" for i
  proof -
    have "takeWhile ?P bins ! i \<in> set (takeWhile ?P bins)" using that by simp
    then have "?P (takeWhile ?P bins ! i)" by (rule set_takeWhileD [THEN conjunct2])
    then show ?thesis using that by (simp add: takeWhile_nth)
  qed
  have at: "v < bins ! ?k" if "?k < length bins"
    using nth_length_takeWhile [OF that] by simp
  show ?thesis
  proof
    assume "length (filter ?P bins) = j"
    then have kj: "?k = j" using fk by simp
    have "bins ! (j - 1) \<le> v" using below [of "j - 1"] kj assms(2) by simp
    moreover have "j = length bins \<or> v < bins ! j" using at kj kle by fastforce
    ultimately show "bins ! (j - 1) \<le> v \<and> (j = length bins \<or> v < bins ! j)" by simp
  next
    assume r: "bins ! (j - 1) \<le> v \<and> (j = length bins \<or> v < bins ! j)"
    have "\<not> ?k < j"
    proof
      assume lt: "?k < j"
      then have "?k < length bins" using assms(3) by simp
      then have "v < bins ! ?k" by (rule at)
      moreover have "bins ! ?k \<le> bins ! (j - 1)"
        using assms lt by (simp add: sorted_iff_nth_mono)
      ultimately show False using r by simp
    qed
    moreover have "\<not> j < ?k"
    proof
      assume lt: "j < ?k"
      then have "bins ! j \<le> v" by (rule below)
      moreover have "j \<noteq> length bins" using lt kle by simp
      ultimately show False using r by simp
    qed
    ultimately show "length (filter ?P bins) = j" using fk by simp
  qed
qed

lemma groupby_mean_map:
  "groupby_mean (map key xs) (map g xs)
     = map (\<lambda>k. mean (map g (filter (\<lambda>x. key x = k) xs))) (sort (remdups (map key xs)))"
proof -
  have z: "zip (map g xs) (map key xs) = map (\<lambda>x. (g x, key x)) xs"
    by (induction xs) simp_all
  have "map fst (filter (\<lambda>r. snd r = k) (map (\<lambda>x. (g x, key x)) xs))
          = map g (filter (\<lambda>x. key x = k) xs)" for k
    by (induction xs) simp_all
  then show ?thesis by (simp add: groupby_mean_def z)
qed

lemma sort_remdups_keys:
  assumes "\<And>x. x \<in> set xs \<Longrightarrow> 1 \<le> key x \<and> key x \<le> n"
  shows "sort (remdups (map key xs))
           = filter (\<lambda>j. filter (\<lambda>x. key x = j) xs \<noteq> []) [1..<Suc n]"
proof (rule sorted_distinct_set_unique)
  show "sorted (sort (remdups (map key xs)))" by simp
  show "distinct (sort (remdups (map key xs)))" by simp
  show "sorted (filter (\<lambda>j. filter (\<lambda>x. key x = j) xs \<noteq> []) [1..<Suc n])"
    by (rule sorted_wrt_filter) (rule sorted_upt)
  show "distinct (filter (\<lambda>j. filter (\<lambda>x. key x = j) xs \<noteq> []) [1..<Suc n])"
    by (rule distinct_filter) (rule distinct_upt)
  show "set (sort (remdups (map key xs)))
          = set (filter (\<lambda>j. filter (\<lambda>x. key x = j) xs \<noteq> []) [1..<Suc n])"
    using assms by (fastforce simp add: filter_empty_conv less_Suc_eq_le simp del: upt_Suc)
qed


lemma bin_boundary_mono:
  assumes "1 \<le> lo" "lo \<le> hi" "i \<le> j"
  shows "bin_boundary lo hi num i \<le> bin_boundary lo hi num j"
proof -
  have "1 \<le> real hi / real lo" using assms by simp
  moreover have "real i / real num \<le> real j / real num"
    using assms by (simp add: divide_right_mono)
  ultimately have "(real hi / real lo) powr (real i / real num)
                     \<le> (real hi / real lo) powr (real j / real num)"
    by (rule powr_mono [rotated])
  then show ?thesis
    unfolding bin_boundary_def by (rule mult_left_mono) simp
qed

lemma bin_boundary_0:
  assumes "1 \<le> lo" "lo \<le> hi"
  shows "bin_boundary lo hi num 0 = real lo"
  using assms by (simp add: bin_boundary_def)

lemma sorted_bin_boundaries:
  assumes "1 \<le> lo" "lo \<le> hi"
  shows "sorted (map (bin_boundary lo hi num) [0..<n])"
  by (simp add: sorted_iff_nth_mono bin_boundary_mono [OF assms])

lemma geomspace_bin_boundaries:
  assumes "1 \<le> lo" "lo \<le> hi" "0 \<le> num"
  shows "geomspace lo hi num False = Inr (map (bin_boundary lo hi (nat num)) [0..<nat num])"
proof -
  have s: "0 < lo" and t: "0 < hi" using assms by simp_all
  have b: "bin_boundary lo hi (nat num)
             = (\<lambda>i. real lo * (real hi / real lo) powr (real i / real (samples_div num False)))"
    by (rule ext) (simp add: bin_boundary_def samples_div_def)
  show ?thesis
    by (simp only: geomspace_closed_form [OF assms(3) s t] b)
qed

lemma bin_key_members:
  assumes "1 \<le> lo" "lo \<le> hi" "1 \<le> j" "j \<le> n"
  shows "filter (\<lambda>d. length (filter (\<lambda>b. b \<le> real d) (map (bin_boundary lo hi n) [0..<n])) = j)
           [lo..<Suc hi]
         = bin_members lo hi n j"
proof -
  let ?bins = "map (bin_boundary lo hi n) [0..<n]"
  have srt: "sorted ?bins" by (rule sorted_bin_boundaries [OF assms(1,2)])
  have len: "length ?bins = n" by simp
  have jl: "j \<le> length ?bins" using assms by simp
  have a: "?bins ! (j - 1) = bin_boundary lo hi n (j - 1)"
    using assms by simp
  have "(length (filter (\<lambda>b. b \<le> real d) ?bins) = j)
          = (bin_boundary lo hi n (j - 1) \<le> real d
             \<and> (j = n \<or> real d < bin_boundary lo hi n j))" for d
  proof (cases "j = n")
    case True
    show ?thesis
      using count_le_sorted_iff [OF srt assms(3) jl, of "real d"] True a by simp
  next
    case False
    then have "j < n" using assms by simp
    then have "?bins ! j = bin_boundary lo hi n j" by simp
    then show ?thesis
      using count_le_sorted_iff [OF srt assms(3) jl, of "real d"] False a by simp
  qed
  then show ?thesis unfolding bin_members_def by simp
qed

lemma bin_key_range:
  assumes "1 \<le> lo" "lo \<le> hi" "1 \<le> n" "lo \<le> d"
  shows "1 \<le> length (filter (\<lambda>b. b \<le> real d) (map (bin_boundary lo hi n) [0..<n]))
       \<and> length (filter (\<lambda>b. b \<le> real d) (map (bin_boundary lo hi n) [0..<n])) \<le> n"
proof -
  let ?bins = "map (bin_boundary lo hi n) [0..<n]"
  have "bin_boundary lo hi n 0 \<in> set ?bins" using assms by simp
  moreover have "bin_boundary lo hi n 0 \<le> real d"
    using assms by (simp add: bin_boundary_0)
  ultimately have "filter (\<lambda>b. b \<le> real d) ?bins \<noteq> []"
    unfolding filter_empty_conv by blast
  then have "0 < length (filter (\<lambda>b. b \<le> real d) ?bins)"
    by (rule iffD2 [OF length_greater_0_conv])
  then have "1 \<le> length (filter (\<lambda>b. b \<le> real d) ?bins)"
    by linarith
  moreover have "length (filter (\<lambda>b. b \<le> real d) ?bins) \<le> length ?bins"
    by (rule length_filter_le)
  ultimately show ?thesis by simp
qed


lemma log_binning_general:
  assumes ne: "degrees \<noteq> []" and mx: "1 \<le> Max (set degrees)" and num: "1 \<le> num"
  shows "log_binning degrees num = Inr (log_binning_spec degrees (nat num))"
proof -
  let ?lo = "max 1 (Min (set degrees))"
  let ?hi = "Max (set degrees)"
  let ?n = "nat num"
  let ?dom = "[?lo..<Suc ?hi]"
  let ?g = "\<lambda>d. real (count_list degrees d) / real (length degrees)"
  let ?bins = "map (bin_boundary ?lo ?hi ?n) [0..<?n]"
  let ?key = "\<lambda>d. length (filter (\<lambda>b. b \<le> real d) ?bins)"
  let ?bs = "filter (\<lambda>j. bin_members ?lo ?hi ?n j \<noteq> []) [1..<Suc ?n]"
  have lo1: "1 \<le> ?lo" by simp
  have "Min (set degrees) \<le> ?hi" using ne by (simp add: Min_le_iff)
  then have lohi: "?lo \<le> ?hi" using mx by simp
  have n1: "1 \<le> ?n" using num by simp
  have degree: "drop ?lo (arange (?hi + 1)) = ?dom"
    by (simp add: arange_def del: upt_Suc)
  have lt: "?lo < Suc ?hi" using lohi by linarith
  have dom_ne: "?dom \<noteq> []"
  proof
    assume "?dom = []"
    then have "Suc ?hi \<le> ?lo" by (simp only: upt_eq_Nil_conv) simp
    then show False using lt by linarith
  qed
  have mn_dom: "Min (set ?dom) = ?lo"
    using lohi by (intro Min_eqI) (auto simp del: upt_Suc)
  have mx_dom: "Max (set ?dom) = ?hi"
    using lohi by (intro Max_eqI) (auto simp del: upt_Suc)
  have freq: "map (\<lambda>c. real c / real (length degrees)) (drop ?lo (bincount degrees)) = map ?g ?dom"
    using ne by (simp add: bincount_def drop_map del: upt_Suc)
  have geo: "geomspace ?lo ?hi num False = Inr ?bins"
    using num by (intro geomspace_bin_boundaries [OF lo1 lohi]) simp
  have srt: "sorted ?bins" by (rule sorted_bin_boundaries [OF lo1 lohi])
  have dig: "digitize (map real ?dom) ?bins = Inr (map ?key ?dom)"
    unfolding digitize_def using srt by (simp add: comp_def del: upt_Suc)
  have range: "1 \<le> ?key d \<and> ?key d \<le> ?n" if "d \<in> set ?dom" for d
  proof -
    have "?lo \<le> d" using that by (simp del: upt_Suc)
    then show ?thesis by (rule bin_key_range [OF lo1 lohi n1])
  qed
  have keys: "sort (remdups (map ?key ?dom))
                = filter (\<lambda>j. filter (\<lambda>d. ?key d = j) ?dom \<noteq> []) [1..<Suc ?n]"
    by (rule sort_remdups_keys) (rule range)
  have mem: "filter (\<lambda>d. ?key d = j) ?dom = bin_members ?lo ?hi ?n j" if "j \<in> set [1..<Suc ?n]" for j
  proof -
    have "1 \<le> j" "j \<le> ?n" using that by (simp_all del: upt_Suc)
    then show ?thesis by (rule bin_key_members [OF lo1 lohi])
  qed
  have keys': "sort (remdups (map ?key ?dom)) = ?bs"
    unfolding keys by (rule filter_cong) (simp_all only: mem)
  have col: "groupby_mean (map ?key ?dom) (map h ?dom)
               = map (\<lambda>j. mean (map h (bin_members ?lo ?hi ?n j))) ?bs" for h :: "nat \<Rightarrow> real"
  proof -
    have "groupby_mean (map ?key ?dom) (map h ?dom)
            = map (\<lambda>k. mean (map h (filter (\<lambda>d. ?key d = k) ?dom))) ?bs"
      by (simp only: groupby_mean_map keys')
    also have "\<dots> = map (\<lambda>j. mean (map h (bin_members ?lo ?hi ?n j))) ?bs"
    proof (rule map_cong [OF refl])
      fix j assume "j \<in> set ?bs"
      then have j: "j \<in> set [1..<Suc ?n]" by (rule subsetD [OF filter_is_subset])
      show "mean (map h (filter (\<lambda>d. ?key d = j) ?dom))
              = mean (map h (bin_members ?lo ?hi ?n j))"
        by (simp only: mem [OF j])
    qed
    finally show ?thesis .
  qed
  have "log_binning degrees num
          = Inr (groupby_mean (map ?key ?dom) (map real ?dom),
                 groupby_mean (map ?key ?dom) (map ?g ?dom))"
    by (simp only: log_binning_def py_max_def py_min_def if_not_P [OF ne] sum.case Let_def
        degree freq if_not_P [OF dom_ne] mn_dom mx_dom geo dig)
  also have "\<dots> = Inr (log_binning_spec degrees ?n)"
    by (simp only: col log_binning_spec_def Let_def)
  finally show ?thesis .
qed


lemma length_log_binning_spec:
  "length (fst (log_binning_spec degrees n)) \<le> n
   \<and> length (snd (log_binning_spec degrees n)) = length (fst (log_binning_spec degrees n))"
proof -
  have "length (filter P [1..<Suc n]) \<le> n" for P
    using length_filter_le [of P "[1..<Suc n]"] by (simp del: upt_Suc)
  then show ?thesis by (simp add: log_binning_spec_def Let_def del: upt_Suc)
qed










section \<open>Degenerate ranges\<close>

lemma constant_sequence:
  assumes "degrees \<noteq> []" "Min (set degrees) = Max (set degrees)"
  shows "\<forall>d\<in>set degrees. d = Max (set degrees)"
proof
  fix d assume d: "d \<in> set degrees"
  then have "Min (set degrees) \<le> d" "d \<le> Max (set degrees)" by simp_all
  then show "d = Max (set degrees)" using assms(2) by simp
qed

lemma count_list_constant:
  "\<forall>d\<in>set xs. d = m \<Longrightarrow> count_list xs m = length xs"
  by (induction xs) simp_all

lemma right_prop_above_max:
  assumes "degrees \<noteq> []" "real (Max (set degrees)) \<le> s"
  shows "right_prop degrees s = 0"
proof -
  have "\<not> s < real d" if "d \<in> set degrees" for d
  proof -
    have "d \<le> Max (set degrees)" using that by simp
    then have "real d \<le> s" using assms(2) by simp
    then show ?thesis by simp
  qed
  then have "filter (\<lambda>i. s < real i) degrees = []" by (simp add: filter_empty_conv)
  then show ?thesis by (simp add: right_prop_def)
qed

lemma geometric_samples_ge_start:
  assumes "0 < a" "a \<le> b" "i < n"
  shows "a \<le> geometric_samples a b n ! i"
proof -
  have "1 \<le> b / a" using assms by simp
  moreover have "0 \<le> real i / real (n - 1)" by simp
  ultimately have "1 \<le> (b / a) powr (real i / real (n - 1))"
    by (rule ge_one_powr_ge_zero)
  then have "a * 1 \<le> a * (b / a) powr (real i / real (n - 1))"
    using assms(1) by (intro mult_left_mono) simp_all
  then show ?thesis using assms(3) by (simp add: geometric_samples_nth)
qed

lemma log_binning_spec_constant:
  assumes ne: "degrees \<noteq> []" and eq: "Min (set degrees) = Max (set degrees)"
    and mx: "1 \<le> Max (set degrees)" and n: "1 \<le> n"
  shows "log_binning_spec degrees n = ([real (Max (set degrees))], [1])"
proof -
  let ?m = "Max (set degrees)"
  have lo: "max 1 (Min (set degrees)) = ?m" using eq mx by simp
  have mpos: "0 < real ?m" using mx by simp
  have b: "bin_boundary ?m ?m n i = real ?m" for i
    using mpos by (simp add: bin_boundary_def)
  have mem: "bin_members ?m ?m n j = (if j = n then [?m] else [])" for j
    by (simp add: bin_members_def b)
  have "filter (\<lambda>j. j = n) [1..<Suc n] = [n]"
  proof -
    have "[1..<Suc n] = [1..<n] @ [n]" using n by simp
    moreover have "filter (\<lambda>j. j = n) [1..<n] = []" by (simp add: filter_empty_conv)
    ultimately show ?thesis by simp
  qed
  then have bs: "filter (\<lambda>j. bin_members ?m ?m n j \<noteq> []) [1..<Suc n] = [n]"
    by (simp add: mem del: upt_Suc)
  have cnt: "count_list degrees ?m = length degrees"
    by (rule count_list_constant) (rule constant_sequence [OF ne eq])
  have len: "real (length degrees) \<noteq> 0" using ne by simp
  show ?thesis
    unfolding log_binning_spec_def Let_def lo bs
    using len by (simp add: mem mean_def cnt)
qed

text \<open>
  C4, as stated, fails: neither function checks the range. On the constant sequence
  \<open>[2, 2]\<close> both return a series.
\<close>

theorem constant_sequence_not_rejected:
  "log_binning [2, 2] 2 = Inr ([2], [1])
   \<and> log_cumulative_distribution [2, 2] 2 = Inr ([2, 3], [0, 0])"
proof -
  have "log_binning [2, 2] 2 = Inr (log_binning_spec [2, 2] (nat 2))"
    by (rule log_binning_general) simp_all
  moreover have "log_binning_spec [2, 2] (nat 2) = ([2], [1])"
    using log_binning_spec_constant [of "[2, 2]" "nat 2"] by simp
  moreover have "geometric_samples 2 3 2 = [2, 3]"
    by (simp add: geometric_samples_def upt_rec)
  then have "log_cumulative_distribution [2, 2] 2 = Inr ([2, 3], [0, 0])"
    using log_cumulative_distribution_closed_form [of "[2, 2]" 2]
    by (simp add: right_prop_def)
  ultimately show ?thesis by simp
qed

text \<open>
  C4 (amended). For every non-empty degree sequence whose degrees all equal the same
  \<open>m \<ge> 1\<close>, neither function fails: \<open>log_binning\<close> with \<open>num \<ge> 1\<close> returns the single
  row \<open>x = [m]\<close>, \<open>y = [1]\<close>, and \<open>log_cumulative_distribution\<close> with \<open>n_bins \<ge> 1\<close>
  returns the \<open>n_bins\<close> geometric sample points from \<open>m\<close> towards \<open>m + 1\<close> with
  \<open>y = 0\<close> at each of them.
\<close>

theorem constant_sequence_series:
  assumes "degrees \<noteq> []" "Min (set degrees) = Max (set degrees)" "1 \<le> Max (set degrees)"
    "1 \<le> num" "1 \<le> n_bins"
  shows "log_binning degrees num = Inr ([real (Max (set degrees))], [1])
       \<and> log_cumulative_distribution degrees n_bins
           = Inr (geometric_samples (real (Max (set degrees))) (real (Max (set degrees)) + 1)
                    (nat n_bins),
                  replicate (nat n_bins) 0)"
proof -
  let ?m = "Max (set degrees)"
  let ?x = "geometric_samples (real ?m) (real ?m + 1) (nat n_bins)"
  have n: "1 \<le> nat num" using assms(4) by simp
  have 1: "log_binning degrees num = Inr ([real ?m], [1])"
    using log_binning_general [OF assms(1,3,4)]
      log_binning_spec_constant [OF assms(1,2,3) n] by simp
  have lo: "max 1 (Min (set degrees)) = ?m" using assms(2,3) by simp
  have mpos: "0 < real ?m" using assms(3) by simp
  have "map (right_prop degrees) ?x = replicate (nat n_bins) 0"
  proof (rule nth_equalityI)
    show "length (map (right_prop degrees) ?x) = length (replicate (nat n_bins) (0 :: real))"
      by (simp add: length_geometric_samples)
  next
    fix i assume "i < length (map (right_prop degrees) ?x)"
    then have i: "i < nat n_bins" by (simp add: length_geometric_samples)
    have "real ?m \<le> ?x ! i"
      by (rule geometric_samples_ge_start [OF mpos _ i]) simp
    then have "right_prop degrees (?x ! i) = 0"
      by (rule right_prop_above_max [OF assms(1)])
    then show "map (right_prop degrees) ?x ! i = replicate (nat n_bins) 0 ! i"
      using i by (simp add: length_geometric_samples)
  qed
  then have 2: "log_cumulative_distribution degrees n_bins = Inr (?x, replicate (nat n_bins) 0)"
    using log_cumulative_distribution_closed_form [OF assms(1,5)] by (simp only: lo)
  from 1 2 show ?thesis by (intro conjI)
qed

theorem constant_sequence_series_witness:
  "[2, 2] \<noteq> ([] :: nat list) \<and> Min (set [2, 2 :: nat]) = Max (set [2, 2])
   \<and> 1 \<le> Max (set [2, 2 :: nat]) \<and> (1 :: int) \<le> 2 \<and> (1 :: int) \<le> 2
   \<and> log_binning [2, 2] 2 = Inr ([2], [1])
   \<and> log_cumulative_distribution [2, 2] 2 = Inr ([2, 3], [0, 0])"
proof -
  have s: "geometric_samples 2 3 2 = [2, 3]"
    by (simp add: geometric_samples_def upt_rec)
  have r: "replicate 2 (0 :: real) = [0, 0]"
    by (simp add: numeral_2_eq_2)
  show ?thesis
    using constant_sequence_series [of "[2, 2]" 2 2] by (simp add: s r)
qed

section \<open>Writing and reading graph records\<close>

lemma child_name_path_join:
  assumes "name \<noteq> []" "CHR ''/'' \<notin> set name"
  shows "child_name path (path_join path name) = Some name"
proof -
  have hd: "hd name \<noteq> CHR ''/''" using assms by (cases name) auto
  let ?pre = "path_join path []"
  have j: "path_join path name = ?pre @ name"
    using assms(1) hd by (simp add: path_join_def)
  show ?thesis
    unfolding child_name_def Let_def j using assms by simp
qed

lemma os_listdir_child:
  assumes "map_of fs path = Some Dir" "(path_join path name, node) \<in> set fs"
    "name \<noteq> []" "CHR ''/'' \<notin> set name"
  shows "\<exists>names. os_listdir fs path = Inr names \<and> name \<in> set names"
proof -
  have "child_name path (path_join path name) = Some name"
    by (rule child_name_path_join [OF assms(3,4)])
  then have "name \<in> set (List.map_filter (\<lambda>(q, n). child_name path q) fs)"
    using assms(2) by (force simp add: List.map_filter_def image_iff)
  then show ?thesis using assms(1) by (simp add: os_listdir_def)
qed

text \<open>
  C8. When the target directory exists and holds at least one entry, \<open>save_networks\<close>
  fails with the directory-not-empty error, whatever the list of graph records, and
  the file system after the call is the file system before it.
\<close>

theorem save_networks_directory_not_empty:
  assumes "map_of fs path = Some Dir" "(path_join path name, node) \<in> set fs"
    "name \<noteq> []" "CHR ''/'' \<notin> set name"
  shows "save_networks networks path fs = (Inl DirectoryNotEmpty, fs)"
proof -
  obtain names where l: "os_listdir fs path = Inr names" and n: "name \<in> set names"
    using os_listdir_child [OF assms] by blast
  have "0 < length names" using n by (cases names) auto
  moreover have "os_path_exists fs path" using assms(1) by (simp add: os_path_exists_def)
  ultimately show ?thesis by (simp add: save_networks_def l)
qed

theorem save_networks_directory_not_empty_witness:
  "map_of [(''simple'', Dir), (''simple/notes.txt'', File [])] ''simple'' = Some Dir
   \<and> (path_join ''simple'' ''notes.txt'', File [])
        \<in> set [(''simple'', Dir), (''simple/notes.txt'', File [])]
   \<and> ''notes.txt'' \<noteq> [] \<and> CHR ''/'' \<notin> set ''notes.txt''
   \<and> save_networks [([(0, [1]), (1, [])], [[1, 2], [3, 4]])] ''simple''
        [(''simple'', Dir), (''simple/notes.txt'', File [])]
      = (Inl DirectoryNotEmpty, [(''simple'', Dir), (''simple/notes.txt'', File [])])"
proof -
  have j: "path_join ''simple'' ''notes.txt'' = ''simple/notes.txt''"
    by (simp add: path_join_def)
  show ?thesis
    using save_networks_directory_not_empty
      [of "[(''simple'', Dir), (''simple/notes.txt'', File [])]" "''simple''"
          "''notes.txt''" "File []" "[([(0, [1]), (1, [])], [[1, 2], [3, 4]])]"]
    by (simp add: j)
qed

section \<open>Batch reading\<close>

lemma sequence_sum_all_ok:
  "list_all (\<lambda>r. \<not> isl r) rs \<Longrightarrow> sequence_sum rs = Inr (map projr rs)"
proof (induction rs)
  case Nil
  show ?case by simp
next
  case (Cons r rs)
  then obtain v where "r = Inr v" by (cases r) auto
  with Cons show ?case by simp
qed

text \<open>
  C9, as stated, fails: \<open>get_networks\<close> never compares the lengths of the two lists. In a
  directory with two edge-list files and one coordinate file it pairs the first of each
  and returns that one record.
\<close>

theorem get_networks_unequal_lists:
  "get_networks ''d''
     [(''d'', Dir),
      (''d/edgelist_0.txt'', File [[IntF 0, IntF 1]]),
      (''d/edgelist_1.txt'', File [[IntF 1, IntF 0]]),
      (''d/coords_0.txt'', File [[NameF ''theta'', NameF ''radius''],
                                 [FloatF 1, FloatF 2], [FloatF 3, FloatF 4]])]
   = Inr [([(0, [1]), (1, [])], [FloatArray [1, 3], FloatArray [2, 4]])]"
  by code_simp

text \<open>
  C9 (amended). On batch read, the sorted list of edge-list paths and the sorted list of
  coordinate paths are paired position by position up to the end of the shorter one.
  When each of these pairs reads, \<open>get_networks\<close> returns one record per pair, in that
  order, as many as the shorter list has, also when the two lists differ in length: the
  surplus files are ignored and no error is raised for them.
\<close>

theorem get_networks_pairs_shorter_list:
  assumes "os_listdir fs path = Inr names"
    and "list_all (\<lambda>(e_path, c_path). \<not> isl (get_G_coords e_path c_path fs))
           (zip (sort (map (path_join path) (filter (contains ''edgelist'') names)))
                (sort (map (path_join path) (filter (contains ''coords'') names))))"
  shows "get_networks path fs
           = Inr (map (\<lambda>(e_path, c_path). projr (get_G_coords e_path c_path fs))
                    (zip (sort (map (path_join path) (filter (contains ''edgelist'') names)))
                         (sort (map (path_join path) (filter (contains ''coords'') names)))))
       \<and> length (projr (get_networks path fs))
           = min (length (filter (contains ''edgelist'') names))
                 (length (filter (contains ''coords'') names))"
proof -
  let ?z = "zip (sort (map (path_join path) (filter (contains ''edgelist'') names)))
                (sort (map (path_join path) (filter (contains ''coords'') names)))"
  have "list_all (\<lambda>r. \<not> isl r) (map (\<lambda>(e_path, c_path). get_G_coords e_path c_path fs) ?z)"
    using assms(2) by (simp add: list_all_iff case_prod_beta)
  then have "sequence_sum (map (\<lambda>(e_path, c_path). get_G_coords e_path c_path fs) ?z)
               = Inr (map projr (map (\<lambda>(e_path, c_path). get_G_coords e_path c_path fs) ?z))"
    by (rule sequence_sum_all_ok)
  then have g: "get_networks path fs
                  = Inr (map (\<lambda>(e_path, c_path). projr (get_G_coords e_path c_path fs)) ?z)"
    by (simp add: get_networks_def assms(1) Let_def comp_def case_prod_beta)
  have "length ?z = min (length (filter (contains ''edgelist'') names))
                        (length (filter (contains ''coords'') names))"
    by simp
  with g show ?thesis by simp
qed

theorem get_networks_pairs_shorter_list_witness:
  "get_networks ''d''
     [(''d'', Dir),
      (''d/edgelist_0.txt'', File [[IntF 0, IntF 1]]),
      (''d/edgelist_1.txt'', File [[IntF 1, IntF 0]]),
      (''d/coords_0.txt'', File [[NameF ''theta'', NameF ''radius''],
                                 [FloatF 1, FloatF 2], [FloatF 3, FloatF 4]])]
   = Inr [projr (get_G_coords ''d/edgelist_0.txt'' ''d/coords_0.txt''
            [(''d'', Dir),
             (''d/edgelist_0.txt'', File [[IntF 0, IntF 1]]),
             (''d/edgelist_1.txt'', File [[IntF 1, IntF 0]]),
             (''d/coords_0.txt'', File [[NameF ''theta'', NameF ''radius''],
                                        [FloatF 1, FloatF 2], [FloatF 3, FloatF 4]])])]
   \<and> length (projr (get_networks ''d''
            [(''d'', Dir),
             (''d/edgelist_0.txt'', File [[IntF 0, IntF 1]]),
             (''d/edgelist_1.txt'', File [[IntF 1, IntF 0]]),
             (''d/coords_0.txt'', File [[NameF ''theta'', NameF ''radius''],
                                        [FloatF 1, FloatF 2], [FloatF 3, FloatF 4]])])) = 1"
proof -
  let ?fs = "[(''d'', Dir),
      (''d/edgelist_0.txt'', File [[IntF 0, IntF 1]]),
      (''d/edgelist_1.txt'', File [[IntF 1, IntF 0]]),
      (''d/coords_0.txt'', File [[NameF ''theta'', NameF ''radius''],
                                 [FloatF 1, FloatF 2], [FloatF 3, FloatF 4]])]"
  let ?names = "[''edgelist_0.txt'', ''edgelist_1.txt'', ''coords_0.txt'']"
  have l: "os_listdir ?fs ''d'' = Inr ?names" by code_simp
  have es: "sort (map (path_join ''d'') (filter (contains ''edgelist'') ?names))
              = [''d/edgelist_0.txt'', ''d/edgelist_1.txt'']" by code_simp
  have cs: "sort (map (path_join ''d'') (filter (contains ''coords'') ?names))
              = [''d/coords_0.txt'']" by code_simp
  have ok: "\<not> isl (get_G_coords ''d/edgelist_0.txt'' ''d/coords_0.txt'' ?fs)" by code_simp
  have e2: "filter (contains ''edgelist'') ?names = [''edgelist_0.txt'', ''edgelist_1.txt'']"
    by code_simp
  have c2: "filter (contains ''coords'') ?names = [''coords_0.txt'']" by code_simp
  have pre: "list_all (\<lambda>(e_path, c_path). \<not> isl (get_G_coords e_path c_path ?fs))
           (zip (sort (map (path_join ''d'') (filter (contains ''edgelist'') ?names)))
                (sort (map (path_join ''d'') (filter (contains ''coords'') ?names))))"
    unfolding es cs using ok by simp
  note t = get_networks_pairs_shorter_list [OF l pre, unfolded es cs, unfolded e2 c2]
  show ?thesis using t by simp
qed

section \<open>The round trip of a graph record\<close>

lemma set_edges: "set (edges G) = (\<Union>(w, vs)\<in>set G. Pair w ` set vs)"
  by (auto simp add: edges_def)

lemma nodes_add_node: "set (nodes (add_node u G)) = insert u (set (nodes G))"
  by (auto simp add: add_node_def nodes_def)

lemma edges_add_node: "edges (add_node u G) = edges G"
  by (simp add: add_node_def edges_def)

lemma nodes_add_edge: "set (nodes (add_edge u v G)) = insert u (insert v (set (nodes G)))"
proof -
  have "map fst (map (\<lambda>(w, vs). if w = u \<and> v \<notin> set vs then (w, vs @ [v]) else (w, vs)) H)
          = map fst H" for H :: digraph
    by (induction H) auto
  then have "nodes (add_edge u v G) = nodes (add_node v (add_node u G))"
    by (simp add: add_edge_def nodes_def)
  then show ?thesis by (auto simp add: nodes_add_node)
qed

lemma edges_Cons: "edges ((w, vs) # H) = map (Pair w) vs @ edges H"
  by (simp add: edges_def)

lemma set_edges_update:
  "set (edges (map (\<lambda>(w, vs). if w = u \<and> v \<notin> set vs then (w, vs @ [v]) else (w, vs)) H))
     = set (edges H) \<union> (if u \<in> fst ` set H then {(u, v)} else {})"
proof (induction H)
  case Nil
  show ?case by (simp add: edges_def)
next
  case (Cons p H)
  obtain w vs where p: "p = (w, vs)" by (cases p)
  let ?f = "\<lambda>(w, vs). if w = u \<and> v \<notin> set vs then (w, vs @ [v]) else (w, vs)"
  show ?case
  proof (cases "w = u \<and> v \<notin> set vs")
    case True
    then have "map ?f (p # H) = (w, vs @ [v]) # map ?f H" by (simp add: p)
    then have "set (edges (map ?f (p # H)))
                 = Pair w ` set vs \<union> {(w, v)} \<union> set (edges (map ?f H))"
      by (simp add: edges_Cons Un_commute)
    also have "\<dots> = Pair w ` set vs \<union> {(w, v)}
                       \<union> (set (edges H) \<union> (if u \<in> fst ` set H then {(u, v)} else {}))"
      by (simp only: Cons.IH)
    also have "\<dots> = set (edges (p # H)) \<union> (if u \<in> fst ` set (p # H) then {(u, v)} else {})"
      using True by (auto simp add: p edges_Cons)
    finally show ?thesis .
  next
    case False
    then have "map ?f (p # H) = (w, vs) # map ?f H" by (auto simp add: p)
    then have "set (edges (map ?f (p # H))) = Pair w ` set vs \<union> set (edges (map ?f H))"
      by (simp add: edges_Cons)
    also have "\<dots> = Pair w ` set vs
                       \<union> (set (edges H) \<union> (if u \<in> fst ` set H then {(u, v)} else {}))"
      by (simp only: Cons.IH)
    also have "\<dots> = set (edges (p # H)) \<union> (if u \<in> fst ` set (p # H) then {(u, v)} else {})"
      using False by (auto simp add: p edges_Cons)
    finally show ?thesis .
  qed
qed

lemma set_edges_add_edge: "set (edges (add_edge u v G)) = insert (u, v) (set (edges G))"
proof -
  have "u \<in> set (nodes (add_node v (add_node u G)))" by (simp add: nodes_add_node)
  then have "u \<in> fst ` set (add_node v (add_node u G))" by (simp add: nodes_def)
  then show ?thesis
    unfolding add_edge_def by (simp add: set_edges_update edges_add_node)
qed


lemma parse_edgelist_written:
  "parse_edgelist (map (\<lambda>(u, v). [IntF u, IntF v]) es) G
     = Inr (fold (\<lambda>(u, v). add_edge u v) es G)"
  by (induction es arbitrary: G) (auto simp add: numeral_2_eq_2)

lemma fold_add_edge_sets:
  "set (edges (fold (\<lambda>(u, v). add_edge u v) es G)) = set es \<union> set (edges G)
   \<and> set (nodes (fold (\<lambda>(u, v). add_edge u v) es G))
       = fst ` set es \<union> snd ` set es \<union> set (nodes G)"
proof (induction es arbitrary: G)
  case Nil
  show ?case by simp
next
  case (Cons e es)
  obtain u v where e: "e = (u, v)" by (cases e)
  show ?case
    unfolding e using Cons.IH [of "add_edge u v G"]
    by (auto simp add: set_edges_add_edge nodes_add_edge)
qed

lemma add_nodes_from_sets:
  "edges (add_nodes_from us G) = edges G
   \<and> set (nodes (add_nodes_from us G)) = set us \<union> set (nodes G)"
  unfolding add_nodes_from_def
  by (induction us arbitrary: G) (auto simp add: edges_add_node nodes_add_node)

lemma read_edgelist_written:
  assumes "\<forall>e\<in>set (edges G). fst e \<in> set us \<and> snd e \<in> set us"
  shows "\<exists>H. parse_edgelist (write_edgelist G) [] = Inr H
           \<and> set (edges (add_nodes_from us H)) = set (edges G)
           \<and> set (nodes (add_nodes_from us H)) = set us"
proof -
  let ?H = "fold (\<lambda>(u, v). add_edge u v) (edges G) []"
  have p: "parse_edgelist (write_edgelist G) [] = Inr ?H"
    by (simp add: write_edgelist_def parse_edgelist_written)
  have e: "set (edges ?H) = set (edges G)"
    using fold_add_edge_sets [of "edges G" "[]"] by (simp add: edges_def)
  have n: "set (nodes ?H) = fst ` set (edges G) \<union> snd ` set (edges G)"
    using fold_add_edge_sets [of "edges G" "[]"] by (simp add: nodes_def)
  have "set (nodes ?H) \<subseteq> set us" using assms unfolding n by auto
  then have "set (nodes (add_nodes_from us ?H)) = set us"
    using add_nodes_from_sets [of us ?H] by auto
  moreover have "set (edges (add_nodes_from us ?H)) = set (edges G)"
    using add_nodes_from_sets [of us ?H] e by simp
  ultimately show ?thesis using p by blast
qed

lemma read_csv_to_csv:
  assumes "df \<noteq> []" "\<forall>col\<in>set df. length (snd col) = df_len df"
  shows "read_csv (to_csv df) = Inr df"
proof -
  let ?n = "df_len df"
  let ?header = "map fst df"
  let ?rows = "map (\<lambda>i. map (\<lambda>(c, cells). cells ! i) df) [0..<?n]"
  have t: "to_csv df = ?header # ?rows" using assms(1) by (simp add: to_csv_def)
  have "\<forall>r\<in>set ?rows. r \<noteq> []" using assms(1) by auto
  then have f: "filter (\<lambda>l. l \<noteq> []) (?header # ?rows) = ?header # ?rows"
    using assms(1) by (simp add: filter_id_conv del: upt_Suc)
  have la: "list_all (\<lambda>r. length r = length ?header) ?rows"
    by (simp add: list_all_iff)
  have cols: "map (\<lambda>k. (?header ! k, map (\<lambda>r. r ! k) ?rows)) [0..<length ?header] = df"
  proof (rule nth_equalityI)
    show "length (map (\<lambda>k. (?header ! k, map (\<lambda>r. r ! k) ?rows)) [0..<length ?header])
            = length df" by simp
  next
    fix k assume "k < length (map (\<lambda>k. (?header ! k, map (\<lambda>r. r ! k) ?rows)) [0..<length ?header])"
    then have k: "k < length df" by simp
    then have "df ! k \<in> set df" by simp
    then have len: "length (snd (df ! k)) = ?n" using assms(2) by blast
    have "map (\<lambda>r. r ! k) ?rows = map (\<lambda>i. snd (df ! k) ! i) [0..<?n]"
      using k by (simp add: case_prod_beta del: upt_Suc)
    also have "\<dots> = snd (df ! k)"
      using len map_nth [of "snd (df ! k)"] by simp
    finally have "map (\<lambda>r. r ! k) ?rows = snd (df ! k)" .
    then show "map (\<lambda>k. (?header ! k, map (\<lambda>r. r ! k) ?rows)) [0..<length ?header] ! k = df ! k"
      using k by (simp add: prod_eq_iff del: upt_Suc)
  qed
  show ?thesis
    unfolding t read_csv_def f using la cols by (simp del: upt_Suc)
qed

lemma df_values_floats:
  "map_of df (NameF col) = Some (map FloatF a) \<Longrightarrow> df_values df col = Inr (FloatArray a)"
  by (simp add: df_values_def list_all_iff comp_def)

lemma coords_roundtrip:
  assumes "length coords = 2 \<or> length coords = 3" "\<forall>a\<in>set coords. length a = N"
  shows "\<exists>df. DataFrame (zip (coord_columns (length coords)) coords) = Inr df
           \<and> read_csv (to_csv df) = Inr df \<and> df_len df = N
           \<and> sequence_sum (map (df_values df) (coord_columns (length df)))
               = Inr (map FloatArray coords)"
proof -
  from assms(1) show ?thesis
  proof
    assume "length coords = 2"
    then obtain a b where c: "coords = [a, b]"
      by (auto simp add: numeral_2_eq_2 length_Suc_conv)
    let ?df = "[(NameF ''theta'', map FloatF a), (NameF ''radius'', map FloatF b)]"
    have len: "length a = N" "length b = N" using assms(2) c by simp_all
    have 1: "DataFrame (zip (coord_columns (length coords)) coords) = Inr ?df"
      using len by (simp add: c DataFrame_def coord_columns_def)
    have 2: "read_csv (to_csv ?df) = Inr ?df"
      by (rule read_csv_to_csv) (simp_all add: df_len_def len)
    have 3: "df_len ?df = N" by (simp add: df_len_def len)
    have 4: "sequence_sum (map (df_values ?df) (coord_columns (length ?df)))
               = Inr (map FloatArray coords)"
      by (simp add: c coord_columns_def df_values_floats)
    from 1 2 3 4 show ?thesis by blast
  next
    assume "length coords = 3"
    then obtain a b d where c: "coords = [a, b, d]"
      by (auto simp add: numeral_3_eq_3 length_Suc_conv)
    let ?df = "[(NameF ''theta'', map FloatF a), (NameF ''radius_p'', map FloatF b),
                (NameF ''radius_m'', map FloatF d)]"
    have len: "length a = N" "length b = N" "length d = N" using assms(2) c by simp_all
    have 1: "DataFrame (zip (coord_columns (length coords)) coords) = Inr ?df"
      using len by (simp add: c DataFrame_def coord_columns_def)
    have 2: "read_csv (to_csv ?df) = Inr ?df"
      by (rule read_csv_to_csv) (simp_all add: df_len_def len)
    have 3: "df_len ?df = N" by (simp add: df_len_def len)
    have 4: "sequence_sum (map (df_values ?df) (coord_columns (length ?df)))
               = Inr (map FloatArray coords)"
      by (simp add: c coord_columns_def df_values_floats)
    from 1 2 3 4 show ?thesis by blast
  qed
qed


lemma open_write_file:
  assumes "map_of fs p \<noteq> Some Dir"
  shows "open_write p txt fs = (Inr (), AList.update p (File txt) fs)"
  using assms by (simp add: open_write_def)

lemma open_read_file:
  "map_of fs p = Some (File txt) \<Longrightarrow> open_read fs p = Inr txt"
  by (simp add: open_read_def)

text \<open>
  C10. Take a graph record whose node set is \<open>0..N-1\<close> and whose two or three coordinate
  arrays all have length \<open>N\<close>, and two different paths, neither of them a directory.
  Then \<open>save_G_coords\<close> succeeds, and \<open>get_G_coords\<close> on the same two paths returns a graph
  with the same set of arcs, with node set \<open>0..N-1\<close> again (the nodes without an arc are
  put back from the number of coordinate rows), and the coordinate arrays as they were
  written.
\<close>

theorem save_then_get_roundtrip:
  assumes dense: "set (nodes G) = int ` {0..<N}"
    and arcs: "\<forall>e\<in>set (edges G). snd e \<in> set (nodes G)"
    and tuple: "length coords = 2 \<or> length coords = 3"
    and arrays: "\<forall>a\<in>set coords. length a = N"
    and paths: "edgelist_path \<noteq> coords_path"
    and e_file: "map_of fs edgelist_path \<noteq> Some Dir"
    and c_file: "map_of fs coords_path \<noteq> Some Dir"
  shows "\<exists>fs' G'. save_G_coords (G, coords) edgelist_path coords_path fs = (Inr (), fs')
           \<and> get_G_coords edgelist_path coords_path fs' = Inr (G', map FloatArray coords)
           \<and> set (edges G') = set (edges G)
           \<and> set (nodes G') = int ` {0..<N}"
proof -
  obtain df where df: "DataFrame (zip (coord_columns (length coords)) coords) = Inr df"
    and csv: "read_csv (to_csv df) = Inr df" and rows: "df_len df = N"
    and vals: "sequence_sum (map (df_values df) (coord_columns (length df)))
                 = Inr (map FloatArray coords)"
    using coords_roundtrip [OF tuple arrays] by blast
  let ?fs1 = "AList.update edgelist_path (File (write_edgelist G)) fs"
  let ?fs2 = "AList.update coords_path (File (to_csv df)) ?fs1"
  have w1: "open_write edgelist_path (write_edgelist G) fs = (Inr (), ?fs1)"
    by (rule open_write_file [OF e_file])
  have "map_of ?fs1 coords_path = map_of fs coords_path"
    using paths by (simp add: update_conv')
  then have "map_of ?fs1 coords_path \<noteq> Some Dir" using c_file by simp
  then have w2: "open_write coords_path (to_csv df) ?fs1 = (Inr (), ?fs2)"
    by (rule open_write_file)
  have save: "save_G_coords (G, coords) edgelist_path coords_path fs = (Inr (), ?fs2)"
    by (simp add: save_G_coords_def w1 df w2 Let_def)
  have r1: "open_read ?fs2 coords_path = Inr (to_csv df)"
    by (rule open_read_file) (simp add: update_conv')
  have r2: "open_read ?fs2 edgelist_path = Inr (write_edgelist G)"
    using paths by (intro open_read_file) (simp add: update_conv')
  let ?us = "map int [0..<N]"
  have us: "set ?us = int ` {0..<N}" by simp
  have "\<forall>e\<in>set (edges G). fst e \<in> set ?us \<and> snd e \<in> set ?us"
  proof
    fix e assume e: "e \<in> set (edges G)"
    then have "fst e \<in> set (nodes G)" by (force simp add: set_edges nodes_def)
    moreover have "snd e \<in> set (nodes G)" using arcs e by blast
    ultimately show "fst e \<in> set ?us \<and> snd e \<in> set ?us" unfolding us dense by simp
  qed
  then obtain H where H: "parse_edgelist (write_edgelist G) [] = Inr H"
    and He: "set (edges (add_nodes_from ?us H)) = set (edges G)"
    and Hn: "set (nodes (add_nodes_from ?us H)) = set ?us"
    using read_edgelist_written [of G ?us] by blast
  have get: "get_G_coords edgelist_path coords_path ?fs2
               = Inr (add_nodes_from ?us H, map FloatArray coords)"
    by (simp add: get_G_coords_def r1 csv Let_def vals r2 H rows del: upt_Suc)
  from save get He Hn us show ?thesis by metis
qed

theorem save_then_get_roundtrip_witness:
  "\<exists>fs' G'. save_G_coords ([(0, [1]), (1, [0]), (2, [])], [[1 / 2, 3 / 2, 5 / 2], [1, 2, 3]])
               ''e.txt'' ''c.txt'' [] = (Inr (), fs')
     \<and> get_G_coords ''e.txt'' ''c.txt'' fs'
         = Inr (G', map FloatArray [[1 / 2, 3 / 2, 5 / 2], [1, 2, 3]])
     \<and> set (edges G') = set (edges [(0, [1]), (1, [0]), (2, [])])
     \<and> set (nodes G') = int ` {0..<3}"
proof (rule save_then_get_roundtrip)
  show "set (nodes [(0, [1]), (1, [0]), (2, [])]) = int ` {0..<3}"
    by (auto simp add: nodes_def image_iff)
  show "\<forall>e\<in>set (edges [(0, [1]), (1, [0]), (2, [])]). snd e \<in> set (nodes [(0, [1]), (1, [0]), (2, [])])"
    by (simp add: edges_def nodes_def)
  show "length [[1 / 2, 3 / 2, 5 / 2], [1, 2, 3 :: real]] = 2
          \<or> length [[1 / 2, 3 / 2, 5 / 2], [1, 2, 3 :: real]] = 3" by simp
  show "\<forall>a\<in>set [[1 / 2, 3 / 2, 5 / 2], [1, 2, 3 :: real]]. length a = 3" by simp
  show "''e.txt'' \<noteq> ''c.txt''" by simp
  show "map_of ([] :: fs) ''e.txt'' \<noteq> Some Dir" by simp
  show "map_of ([] :: fs) ''c.txt'' \<noteq> Some Dir" by simp
qed

lemma save_then_get_example:
  "get_G_coords ''e.txt'' ''c.txt''
     (snd (save_G_coords ([(0, [1]), (1, [0]), (2, [])], [[1 / 2, 3 / 2, 5 / 2], [1, 2, 3]])
             ''e.txt'' ''c.txt'' []))
   = Inr ([(0, [1]), (1, [0]), (2, [])], [FloatArray [1 / 2, 3 / 2, 5 / 2], FloatArray [1, 2, 3]])"
  by code_simp

end
